theory Spec2Isabelle
  imports Complex_Main "HOL-Library.Sublist" "HOL-Library.Signed_Division"
begin

section \<open>The container adapter of agent/exec/container/adapter.go\<close>

text \<open>
  The adapter translates container-lifecycle intents into calls of a remote engine API.
  Its functions are modelled one by one, under their own names. What lies outside the
  file (the engine client, the JSON decoder, the context and time packages, the
  configuration object) is modelled at its interface:
  \<^item> a Go \<open>error\<close> is a value of the datatype \<open>error\<close>; a returned \<open>nil\<close> error is \<open>None\<close>;
  \<^item> the engine client is a function \<open>respond\<close> giving the answer to a request from the
    transcript of all earlier requests and their answers, so any deterministic remote is
    an instance; every call is appended to the transcript \<open>calls\<close> of the world;
  \<^item> the logger appends to the list \<open>logs\<close> of the world;
  \<^item> a stream read through a JSON decoder is the finite list of what successive
    \<open>Decode\<close> calls meet; the end of the list is \<open>io.EOF\<close>.
\<close>

subsection \<open>Errors and strings\<close>

text \<open>
  \<open>EOF\<close> is \<open>io.EOF\<close>, \<open>Canceled\<close> and \<open>DeadlineExceeded\<close> are the two errors of the
  context package, \<open>ErrorString s\<close> is any other error value, with message \<open>s\<close>.
\<close>

datatype error = EOF | Canceled | DeadlineExceeded | ErrorString string

fun Error :: "error \<Rightarrow> string" where
  "Error EOF = ''EOF''"
| "Error Canceled = ''context canceled''"
| "Error DeadlineExceeded = ''context deadline exceeded''"
| "Error (ErrorString s) = s"

text \<open>\<open>strings.Contains(s, substr)\<close>: \<open>substr\<close> occurs in \<open>s\<close> as a contiguous block.\<close>

definition strings_Contains :: "string \<Rightarrow> string \<Rightarrow> bool" where
  "strings_Contains s substr = sublist substr s"

definition isActiveEndpointError :: "error \<Rightarrow> bool" where
  "isActiveEndpointError err = strings_Contains (Error err) ''has active endpoints''"

definition isNetworkExistError :: "error \<Rightarrow> string \<Rightarrow> bool" where
  "isNetworkExistError err name =
     strings_Contains (Error err) (''network with name '' @ name @ '' already exists'')"

subsection \<open>Contexts and time\<close>

text \<open>
  A \<open>time.Time\<close> is a number of nanoseconds since a fixed instant, a \<open>time.Duration\<close> a
  number of nanoseconds in the range of a signed 64-bit integer. A context is described
  by what its methods answer: \<open>Deadline\<close> is the deadline if there is one; \<open>Done\<close> is
  \<open>Some e\<close> when the channel of \<open>ctx.Done()\<close> is closed at some moment, after which
  \<open>ctx.Err()\<close> answers \<open>e\<close>, and \<open>None\<close> when that channel is never closed.
\<close>

type_synonym Time = int
type_synonym Duration = int

record Context =
  Deadline :: "Time option"
  Done :: "error option"

subsection \<open>The engine client, the configuration and the world\<close>

record ContainerRemoveOptions =
  RemoveVolumes :: bool
  Force :: bool

datatype 'o request =
    NetworkCreateReq Context string 'o
  | NetworkRemoveReq Context string
  | ContainerRemoveReq Context string ContainerRemoveOptions

type_synonym 'o transcript = "('o request \<times> error option) list"

type_synonym 'o client = "'o transcript \<Rightarrow> 'o request \<Rightarrow> error option"

datatype level = DebugLevel | ErrorLevel

record 'o world =
  calls :: "'o transcript"
  logs :: "(level \<times> string) list"

text \<open>
  One call of the client API: the remote answers from the transcript so far, and the
  exchange is recorded.
\<close>

definition client_call :: "'o client \<Rightarrow> 'o request \<Rightarrow> 'o world \<Rightarrow> error option \<times> 'o world" where
  "client_call respond rq w =
     (let r = respond (calls w) rq in (r, w\<lparr>calls := calls w @ [(rq, r)]\<rparr>))"

definition log_Errorf :: "string \<Rightarrow> 'o world \<Rightarrow> 'o world" where
  "log_Errorf msg w = w\<lparr>logs := logs w @ [(ErrorLevel, msg)]\<rparr>"

text \<open>
  The resolved configuration \<open>containerConfig\<close> is declared in another file of the
  package; the adapter only reads it. Its accessors used here are fields: the assigned
  name, the networks to provision, and the builder of the create options of a network,
  which can fail.
\<close>

record 'o containerConfig =
  name :: string
  networks :: "string list"
  networkCreateOptions :: "string \<Rightarrow> error + 'o"

subsection \<open>remove\<close>

definition remove :: "'o client \<Rightarrow> 'o containerConfig \<Rightarrow> Context \<Rightarrow> 'o world \<Rightarrow> error option \<times> 'o world" where
  "remove respond c ctx w =
     client_call respond
       (ContainerRemoveReq ctx (name c) \<lparr>RemoveVolumes = True, Force = True\<rparr>) w"

subsection \<open>createNetworks and removeNetworks\<close>

fun createNetworks_loop ::
  "'o client \<Rightarrow> 'o containerConfig \<Rightarrow> Context \<Rightarrow> string list \<Rightarrow> 'o world \<Rightarrow> error option \<times> 'o world" where
  "createNetworks_loop respond c ctx [] w = (None, w)"
| "createNetworks_loop respond c ctx (network # rest) w =
     (case networkCreateOptions c network of
        Inl err \<Rightarrow> (Some err, w)
      | Inr opts \<Rightarrow>
          (case client_call respond (NetworkCreateReq ctx network opts) w of
             (Some err, w') \<Rightarrow>
               if isNetworkExistError err network
               then createNetworks_loop respond c ctx rest w'
               else (Some err, w')
           | (None, w') \<Rightarrow> createNetworks_loop respond c ctx rest w'))"

definition createNetworks ::
  "'o client \<Rightarrow> 'o containerConfig \<Rightarrow> Context \<Rightarrow> 'o world \<Rightarrow> error option \<times> 'o world" where
  "createNetworks respond c ctx w = createNetworks_loop respond c ctx (networks c) w"

fun removeNetworks_loop ::
  "'o client \<Rightarrow> Context \<Rightarrow> string list \<Rightarrow> 'o world \<Rightarrow> error option \<times> 'o world" where
  "removeNetworks_loop respond ctx [] w = (None, w)"
| "removeNetworks_loop respond ctx (nid # rest) w =
     (case client_call respond (NetworkRemoveReq ctx nid) w of
        (Some err, w') \<Rightarrow>
          if isActiveEndpointError err
          then removeNetworks_loop respond ctx rest w'
          else (Some err, log_Errorf (''network '' @ nid @ '' remove failed'') w')
      | (None, w') \<Rightarrow> removeNetworks_loop respond ctx rest w')"

definition removeNetworks ::
  "'o client \<Rightarrow> 'o containerConfig \<Rightarrow> Context \<Rightarrow> 'o world \<Rightarrow> error option \<times> 'o world" where
  "removeNetworks respond c ctx w = removeNetworks_loop respond ctx (networks c) w"

text \<open>
  Vocabulary for the properties of the two loops. A network is \<open>created\<close> in a
  transcript when some create request for its name was answered with success or with
  the "already exists" error for that name: either answer says the remote has it. An
  answer to a remove request is \<open>benign\<close> when it is no error or the "active endpoints"
  error.
\<close>

definition created :: "'o transcript \<Rightarrow> string \<Rightarrow> bool" where
  "created h n =
     list_ex (\<lambda>(rq, r). case rq of
                 NetworkCreateReq _ m _ \<Rightarrow>
                   m = n \<and> (case r of None \<Rightarrow> True | Some e \<Rightarrow> isNetworkExistError e n)
               | _ \<Rightarrow> False) h"

definition benign :: "error option \<Rightarrow> bool" where
  "benign a = (case a of None \<Rightarrow> True | Some e \<Rightarrow> isActiveEndpointError e)"

subsection \<open>Instances: a remote that keeps its networks\<close>

text \<open>
  \<open>background\<close> is \<open>context.Background()\<close>: no deadline, never done. \<open>naming_remote\<close>
  refuses to create a network it already has, with the engine's message, and accepts
  everything else. \<open>netAB\<close> declares the networks netA and netB; in \<open>netA_exists\<close> the
  remote already has netA.
\<close>

definition background :: Context where
  "background = \<lparr>Deadline = None, Done = None\<rparr>"

definition naming_remote :: "unit client" where
  "naming_remote h rq =
     (case rq of
        NetworkCreateReq _ n _ \<Rightarrow>
          if created h n
          then Some (ErrorString
                 (''Error response from daemon: network with name '' @ n @ '' already exists''))
          else None
      | _ \<Rightarrow> None)"

definition netAB :: "unit containerConfig" where
  "netAB = \<lparr>name = ''web.1'', networks = [''netA'', ''netB''],
             networkCreateOptions = (\<lambda>n. Inr ())\<rparr>"

definition netA_exists :: "unit world" where
  "netA_exists = \<lparr>calls = [(NetworkCreateReq background ''netA'' (), None)], logs = []\<rparr>"

subsection \<open>Instances: a remote with a network in use\<close>

text \<open>
  \<open>busy_remote\<close> refuses to remove netA, which has active endpoints, does not know
  netB, and removes every other network.
\<close>

definition busy_remote :: "unit client" where
  "busy_remote h rq =
     (case rq of
        NetworkRemoveReq _ nid \<Rightarrow>
          if nid = ''netA''
          then Some (ErrorString (''network '' @ nid @ '' has active endpoints''))
          else if nid = ''netB'' then Some (ErrorString ''network netB not found'')
          else None
      | _ \<Rightarrow> None)"

definition netA_only :: "unit containerConfig" where
  "netA_only = \<lparr>name = ''web.1'', networks = [''netA''],
                 networkCreateOptions = (\<lambda>n. Inr ())\<rparr>"

definition netABC :: "unit containerConfig" where
  "netABC = \<lparr>name = ''web.1'', networks = [''netA'', ''netB'', ''netC''],
              networkCreateOptions = (\<lambda>n. Inr ())\<rparr>"

definition fresh_world :: "unit world" where
  "fresh_world = \<lparr>calls = [], logs = []\<rparr>"

subsection \<open>pullImage\<close>

text \<open>
  The progress stream of an image pull, as \<open>json.Decoder.Decode\<close> into a
  \<open>map[string]interface{}\<close> meets it. A frame is a JSON object, with its members in
  order; or the JSON literal \<open>null\<close>; or anything on which \<open>Decode\<close> returns an
  error: malformed or truncated input, a failed read, a JSON value that is neither an
  object nor \<open>null\<close>. When the input is exhausted \<open>Decode\<close> returns \<open>io.EOF\<close>: that is
  the end of the list. The values of the members are of any type \<open>'v\<close>; the adapter
  only formats them.

  \<open>Decode\<close> into a map that already has entries keeps them: an object stores its
  members over them, a later member of the same key winning; \<open>null\<close> sets the map to
  \<open>nil\<close>, which reads as the empty map; an error leaves the map alone.
\<close>

datatype 'v frame = Object "(string \<times> 'v) list" | Null | Undecodable error

fun Decode :: "'v frame \<Rightarrow> (string \<rightharpoonup> 'v) \<Rightarrow> error + (string \<rightharpoonup> 'v)" where
  "Decode (Object kvs) m = Inr (fold (\<lambda>(k, v) m. m(k \<mapsto> v)) kvs m)"
| "Decode Null m = Inr Map.empty"
| "Decode (Undecodable err) m = Inl err"

text \<open>
  The loop of \<open>pullImage\<close>: \<open>Inr m\<close> is the \<open>break\<close> at \<open>io.EOF\<close> with the map \<open>m\<close>,
  \<open>Inl err\<close> is the \<open>return err\<close>. The debug line written for each record has no part in
  the result and is left out.
\<close>

fun pullImage_loop :: "'v frame list \<Rightarrow> (string \<rightharpoonup> 'v) \<Rightarrow> error + (string \<rightharpoonup> 'v)" where
  "pullImage_loop [] m = Inr m"
| "pullImage_loop (f # fs) m =
     (case Decode f m of
        Inl err \<Rightarrow> if err = EOF then Inr m else Inl err
      | Inr m' \<Rightarrow> pullImage_loop fs m')"

text \<open>
  \<open>pullImage\<close> takes the result of \<open>c.client.ImagePull\<close>, an error or the stream, and
  \<open>Sprintf_v\<close>, the rendering of a value by the verb \<open>%v\<close> of package fmt.
\<close>

definition pullImage :: "('v \<Rightarrow> string) \<Rightarrow> error + 'v frame list \<Rightarrow> error option" where
  "pullImage Sprintf_v ImagePull =
     (case ImagePull of
        Inl err \<Rightarrow> Some err
      | Inr rc \<Rightarrow>
          (case pullImage_loop rc Map.empty of
             Inl err \<Rightarrow> Some err
           | Inr m \<Rightarrow>
               (case m ''error'' of
                  Some errMsg \<Rightarrow> Some (ErrorString (Sprintf_v errMsg))
                | None \<Rightarrow> None)))"

text \<open>
  Vocabulary for the properties of \<open>pullImage\<close>: a frame is \<open>decodable\<close> when \<open>Decode\<close>
  succeeds on it; it is \<open>error_free\<close> when moreover it has no member named "error";
  \<open>member_of kvs k\<close> is the value an object gives to the key \<open>k\<close>; \<open>last_error rs\<close> is the
  value of "error" in the last of the objects \<open>rs\<close> that has such a member.
\<close>

fun decodable :: "'v frame \<Rightarrow> bool" where
  "decodable (Undecodable err) = False"
| "decodable f = True"

fun error_free :: "'v frame \<Rightarrow> bool" where
  "error_free (Object kvs) = (''error'' \<notin> set (map fst kvs))"
| "error_free Null = True"
| "error_free (Undecodable err) = False"

definition member_of :: "(string \<times> 'v) list \<Rightarrow> string \<Rightarrow> 'v option" where
  "member_of kvs k = map_of (rev kvs) k"

fun last_error :: "(string \<times> 'v) list list \<Rightarrow> 'v option" where
  "last_error [] = None"
| "last_error (kvs # rs) =
     (case last_error rs of Some v \<Rightarrow> Some v | None \<Rightarrow> member_of kvs ''error'')"

text \<open>
  Instances: a pull that ends on an error record; a pull whose first record has the
  error member and whose last record has not; values are strings, which \<open>%v\<close> renders
  as they are.
\<close>

definition no_such_image :: "string frame list" where
  "no_such_image =
     [Object [(''status'', ''Pulling repository busybox'')],
      Object [(''error'', ''no such image'')]]"

definition error_then_status :: "(string \<times> string) list list" where
  "error_then_status =
     [[(''error'', ''no such image'')], [(''status'', ''Download complete'')]]"

text \<open>
  A pull of three records, all decodable: the first has the error member, the last is a
  plain status record.
\<close>

definition stale_error :: "string frame list" where
  "stale_error =
     [Object [(''error'', ''no such image'')],
      Object [(''status'', ''Pulling from library/busybox'')],
      Object [(''status'', ''Download complete'')]]"

subsection \<open>events\<close>

text \<open>
  \<open>events\<close> makes two channels, logs, opens the event feed and, when that succeeds,
  starts a task on the feed. The result of \<open>c.client.Events\<close>, an error or the feed, is
  the argument. What the call returns and does is a record: the three returned values
  (a \<open>nil\<close> channel is \<open>None\<close>), the feed handed to the task it started if it started
  one, and the lines it logged.
\<close>

datatype chan = eventsq | closed

record 'rc events_result =
  ret_eventsq :: "chan option"
  ret_closed :: "chan option"
  ret_err :: "error option"
  started :: "'rc option"
  logged :: "(level \<times> string) list"

definition events :: "error + 'rc \<Rightarrow> 'rc events_result" where
  "events Events =
     (case Events of
        Inl err \<Rightarrow>
          \<lparr>ret_eventsq = None, ret_closed = None, ret_err = Some err,
           started = None, logged = [(DebugLevel, ''waiting on events'')]\<rparr>
      | Inr rc \<Rightarrow>
          \<lparr>ret_eventsq = Some eventsq, ret_closed = Some closed, ret_err = None,
           started = Some rc, logged = [(DebugLevel, ''waiting on events'')]\<rparr>)"

text \<open>
  The task runs beside its caller, so it is modelled by what it does, in order, against
  an environment that fixes every outcome the task waits for:
  \<^item> the feed is the list of what successive \<open>Decode\<close> calls meet: a message, an error,
    or \<open>Stalled\<close> when the call never returns; the end of the list is \<open>io.EOF\<close>;
  \<^item> \<open>sel i\<close> is how the \<open>select\<close> after the \<open>i\<close>-th decoded message ends: the consumer
    receives the message, or the context is done first, or neither ever happens;
  \<^item> \<open>ctx_done\<close> says whether the context is already done when the task starts.
  The result is the list of the task's actions and whether it has returned or is blocked
  for ever. The two deferred calls run when the function returns, last deferred first:
  \<open>close(closed)\<close>, then \<open>rc.Close()\<close>.
\<close>

datatype 'ev feed_item = Message 'ev | Broken error | Stalled

datatype delivery = Received | CtxDone | NoOne

datatype 'ev action = DecodeCall | Send 'ev | LogError string | CloseClosed | CloseRc

datatype ending = Returned | Blocked

fun events_loop :: "'ev feed_item list \<Rightarrow> (nat \<Rightarrow> delivery) \<Rightarrow> nat \<Rightarrow> 'ev action list \<times> ending" where
  "events_loop [] sel i = ([DecodeCall], Returned)"
| "events_loop (Broken err # rest) sel i =
     (if err = EOF then ([DecodeCall], Returned)
      else ([DecodeCall, LogError (''error decoding event: '' @ Error err)], Returned))"
| "events_loop (Stalled # rest) sel i = ([DecodeCall], Blocked)"
| "events_loop (Message event # rest) sel i =
     (case sel i of
        Received \<Rightarrow>
          (case events_loop rest sel (Suc i) of
             (acts, e) \<Rightarrow> (DecodeCall # Send event # acts, e))
      | CtxDone \<Rightarrow> ([DecodeCall], Returned)
      | NoOne \<Rightarrow> ([DecodeCall], Blocked))"

definition events_task :: "bool \<Rightarrow> 'ev feed_item list \<Rightarrow> (nat \<Rightarrow> delivery) \<Rightarrow> 'ev action list \<times> ending" where
  "events_task ctx_done rc sel =
     (case (if ctx_done then ([], Returned) else events_loop rc sel 0) of
        (acts, Returned) \<Rightarrow> (acts @ [CloseClosed, CloseRc], Returned)
      | (acts, Blocked) \<Rightarrow> (acts, Blocked))"

text \<open>
  Vocabulary: an environment is \<open>live\<close> when no decode stalls and every select ends.
  Instances: a feed of two messages that ends, with a consumer that takes the first
  message and a context done before the second is taken.
\<close>

definition live :: "'ev feed_item list \<Rightarrow> (nat \<Rightarrow> delivery) \<Rightarrow> bool" where
  "live rc sel = (Stalled \<notin> set rc \<and> (\<forall>i < length rc. sel i \<noteq> NoOne))"

definition two_messages :: "string feed_item list" where
  "two_messages = [Message ''create'', Message ''start'']"

definition first_only :: "nat \<Rightarrow> delivery" where
  "first_only i = (if i = 0 then Received else CtxDone)"

subsection \<open>resolveTimeout\<close>

text \<open>
  \<open>deadline.Sub(time.Now())\<close> is the difference of the two instants as a \<open>Duration\<close>,
  which \<open>Sub\<close> caps at the least and the greatest value of a signed 64-bit integer.
\<close>

definition minDuration :: Duration where "minDuration = - (2 ^ 63)"

definition maxDuration :: Duration where "maxDuration = 2 ^ 63 - 1"

definition Sub :: "Time \<Rightarrow> Time \<Rightarrow> Duration" where
  "Sub t u = (if t - u < minDuration then minDuration
              else if maxDuration < t - u then maxDuration else t - u)"

text \<open>
  \<open>left.Seconds()\<close> is a \<open>float64\<close>. The values of finite binary64 numbers are
  rationals, and an operation of binary64 arithmetic is the exact operation followed by
  rounding to the nearest number with a significand of 53 bits, ties to the even
  significand. \<open>float64 x\<close> is that rounding, for \<open>x\<close> of magnitude below \<open>2 ^ 1024\<close>:
  \<open>expo x\<close> is the exponent \<open>e\<close> of a positive \<open>x\<close>, with \<open>2 ^ e \<le> x < 2 ^ (e + 1)\<close>,
  and \<open>ulp x\<close> the spacing of the binary64 numbers around \<open>x\<close> (the spacing of the
  subnormal numbers below \<open>2 ^ - 1022\<close>). The durations of this program stay below
  \<open>2 ^ 34\<close> seconds.
\<close>

function ilog2 :: "int \<Rightarrow> int" where
  "ilog2 n = (if n < 2 then 0 else 1 + ilog2 (n div 2))"
  by pat_completeness auto
termination
  by (relation "measure nat") auto

definition expo :: "rat \<Rightarrow> int" where
  "expo x = (if 1 \<le> x then ilog2 \<lfloor>x\<rfloor> else - (1 + ilog2 (\<lceil>1 / x\<rceil> - 1)))"

definition round_even :: "rat \<Rightarrow> int" where
  "round_even q =
     (let f = \<lfloor>q\<rfloor>; r = q - of_int f
      in if r < 1 / 2 then f else if 1 / 2 < r then f + 1 else if even f then f else f + 1)"

definition ulp :: "rat \<Rightarrow> rat" where
  "ulp x = 2 powi (max (expo \<bar>x\<bar>) (- 1022) - 52)"

definition float64 :: "rat \<Rightarrow> rat" where
  "float64 x = (if x = 0 then 0 else sgn x * of_int (round_even (\<bar>x\<bar> / ulp x)) * ulp x)"

text \<open>
  \<open>Duration.Seconds\<close> splits the duration into whole seconds and nanoseconds, with Go's
  division and remainder, which truncate toward zero, and adds the two as \<open>float64\<close>.
  The time package has computed the fraction in two ways: \<open>float64(nsec)*1e-9\<close> in the
  releases of the time of this source, \<open>float64(nsec)/1e9\<close> in later ones. Both are
  modelled, and \<open>resolveTimeout\<close> takes the one in use as an argument. The conversion
  \<open>int(f)\<close> of a \<open>float64\<close> drops the fraction; \<open>int\<close> has 64 bits.
\<close>

definition Second :: Duration where "Second = 1000000000"

definition Seconds_mul :: "Duration \<Rightarrow> rat" where
  "Seconds_mul d =
     (let sec = d sdiv Second; nsec = d smod Second
      in float64 (float64 (of_int sec)
                  + float64 (float64 (of_int nsec) * float64 (1 / 1000000000))))"

definition Seconds_div :: "Duration \<Rightarrow> rat" where
  "Seconds_div d =
     (let sec = d sdiv Second; nsec = d smod Second
      in float64 (float64 (of_int sec)
                  + float64 (float64 (of_int nsec) / float64 1000000000)))"

definition int_of_float64 :: "rat \<Rightarrow> int" where
  "int_of_float64 x = (if 0 \<le> x then \<lfloor>x\<rfloor> else \<lceil>x\<rceil>)"

text \<open>
  \<open>resolveTimeout\<close> takes the context and the instant \<open>time.Now()\<close> answers. Its result
  is \<open>None\<close> when the call never returns: it waits on \<open>ctx.Done()\<close>, and that channel is
  never closed. Otherwise it is the returned pair of the timeout and the error.
\<close>

definition resolveTimeout ::
  "(Duration \<Rightarrow> rat) \<Rightarrow> Context \<Rightarrow> Time \<Rightarrow> (int \<times> error option) option" where
  "resolveTimeout Seconds ctx now =
     (case Deadline ctx of
        None \<Rightarrow> Some (10, None)
      | Some deadline \<Rightarrow>
          (let left = Sub deadline now
           in if left \<le> 0
              then (case Done ctx of None \<Rightarrow> None | Some err \<Rightarrow> Some (0, Some err))
              else Some (int_of_float64 (Seconds left), None)))"

text \<open>
  Instance: a context whose deadline is 16777216.999999999 seconds after the instant 0.
\<close>

definition half_year :: Context where
  "half_year = \<lparr>Deadline = Some 16777216999999999, Done = Some DeadlineExceeded\<rparr>"

section \<open>Properties\<close>

subsection \<open>remove\<close>

text \<open>
  C8. Every call of \<open>remove\<close> issues exactly one request to the remote, a container
  remove for the configured name with forced removal and volume removal both enabled,
  and hands the remote's answer (an error or none) back unchanged; it logs nothing.
\<close>

theorem remove_single_forced_request:
  "fst (remove respond c ctx w) =
     respond (calls w) (ContainerRemoveReq ctx (name c) \<lparr>RemoveVolumes = True, Force = True\<rparr>)
   \<and> calls (snd (remove respond c ctx w)) =
     calls w @ [(ContainerRemoveReq ctx (name c) \<lparr>RemoveVolumes = True, Force = True\<rparr>,
                 respond (calls w)
                   (ContainerRemoveReq ctx (name c) \<lparr>RemoveVolumes = True, Force = True\<rparr>))]
   \<and> logs (snd (remove respond c ctx w)) = logs w"
  by (simp add: remove_def client_call_def Let_def)

subsection \<open>createNetworks\<close>

lemma created_append: "created h n \<Longrightarrow> created (h @ ext) n"
  by (simp add: created_def)

lemma created_snoc_ok:
  "r = None \<or> (\<exists>e. r = Some e \<and> isNetworkExistError e n) \<Longrightarrow>
   created (h @ [(NetworkCreateReq ctx n opts, r)]) n"
  by (auto simp add: created_def list_ex_iff)

text \<open>
  A call that returns no error has met every declared network: its options were built,
  and its create request was answered with success or with the absorbed error.
\<close>

lemma createNetworks_loop_first:
  "createNetworks_loop respond c ctx ns w = (None, w1) \<Longrightarrow>
     (\<exists>ext. calls w1 = calls w @ ext) \<and>
     (\<forall>n\<in>set ns. created (calls w1) n \<and> (\<exists>opts. networkCreateOptions c n = Inr opts))"
proof (induction ns arbitrary: w)
  case Nil
  then show ?case by simp
next
  case (Cons n ns)
  from Cons.prems obtain opts where o: "networkCreateOptions c n = Inr opts"
    by (auto split: sum.splits)
  define r where "r = respond (calls w) (NetworkCreateReq ctx n opts)"
  define w' where "w' = w\<lparr>calls := calls w @ [(NetworkCreateReq ctx n opts, r)]\<rparr>"
  have cc: "client_call respond (NetworkCreateReq ctx n opts) w = (r, w')"
    by (simp add: client_call_def r_def w'_def Let_def)
  have rok: "r = None \<or> (\<exists>e. r = Some e \<and> isNetworkExistError e n)"
    using Cons.prems o cc by (auto split: option.splits if_splits)
  have rest: "createNetworks_loop respond c ctx ns w' = (None, w1)"
    using Cons.prems o cc by (auto split: option.splits if_splits)
  from Cons.IH[OF rest] obtain ext where
    ext: "calls w1 = calls w' @ ext" and
    all: "\<forall>m\<in>set ns. created (calls w1) m \<and> (\<exists>opts. networkCreateOptions c m = Inr opts)"
    by blast
  have "created (calls w') n"
    using created_snoc_ok[OF rok] by (simp add: w'_def)
  then have "created (calls w1) n" using ext created_append by metis
  moreover have "calls w1 = calls w @ ((NetworkCreateReq ctx n opts, r) # ext)"
    using ext by (simp add: w'_def)
  ultimately show ?case using all o by auto
qed

text \<open>
  From a world in which every declared network is created, against a remote that answers
  duplicates with the "already exists" error, the loop absorbs every failure and runs
  through the whole list.
\<close>

lemma createNetworks_loop_second:
  assumes dup: "\<And>h ctx n opts. created h n \<Longrightarrow>
             \<exists>e. respond h (NetworkCreateReq ctx n opts) = Some e \<and> isNetworkExistError e n"
  shows "\<forall>n\<in>set ns. created (calls w) n \<and> (\<exists>opts. networkCreateOptions c n = Inr opts) \<Longrightarrow>
     \<exists>w2 new. createNetworks_loop respond c ctx ns w = (None, w2) \<and> calls w2 = calls w @ new \<and>
       map fst new = map (\<lambda>n. NetworkCreateReq ctx n (projr (networkCreateOptions c n))) ns"
proof (induction ns arbitrary: w)
  case Nil
  then show ?case by simp
next
  case (Cons n ns)
  from Cons.prems obtain opts where o: "networkCreateOptions c n = Inr opts"
    and cr: "created (calls w) n"
    by auto
  from dup[OF cr] obtain e where e: "respond (calls w) (NetworkCreateReq ctx n opts) = Some e"
     and ex: "isNetworkExistError e n" by blast
  define w' where "w' = w\<lparr>calls := calls w @ [(NetworkCreateReq ctx n opts, Some e)]\<rparr>"
  have cc: "client_call respond (NetworkCreateReq ctx n opts) w = (Some e, w')"
    by (simp add: client_call_def e w'_def Let_def)
  have "\<forall>m\<in>set ns. created (calls w') m \<and> (\<exists>opts. networkCreateOptions c m = Inr opts)"
    using Cons.prems created_append by (auto simp: w'_def)
  from Cons.IH[OF this] obtain w2 new where
    r: "createNetworks_loop respond c ctx ns w' = (None, w2)" and
    c2: "calls w2 = calls w' @ new" and
    m: "map fst new = map (\<lambda>n. NetworkCreateReq ctx n (projr (networkCreateOptions c n))) ns"
    by blast
  have 1: "createNetworks_loop respond c ctx (n # ns) w = (None, w2)"
    using o cc ex r by simp
  have 2: "calls w2 = calls w @ ((NetworkCreateReq ctx n opts, Some e) # new)"
    using c2 by (simp add: w'_def)
  have 3: "map fst ((NetworkCreateReq ctx n opts, Some e) # new) =
      map (\<lambda>n. NetworkCreateReq ctx n (projr (networkCreateOptions c n))) (n # ns)"
    using m o by simp
  show ?case using 1 2 3 by blast
qed

lemma isNetworkExistError_message:
  "isNetworkExistError
     (ErrorString (pre @ ''network with name '' @ n @ '' already exists'' @ post)) n"
  unfolding isNetworkExistError_def strings_Contains_def Error.simps
  by (metis append.assoc sublist_appendI)

lemma naming_remote_dup:
  "created h n \<Longrightarrow>
   \<exists>e. naming_remote h (NetworkCreateReq ctx n opts) = Some e \<and> isNetworkExistError e n"
  using isNetworkExistError_message[of "''Error response from daemon: ''" n "[]"]
  by (simp add: naming_remote_def)

lemma first_netAB:
  "createNetworks naming_remote netAB background netA_exists =
   (None, \<lparr>calls = [(NetworkCreateReq background ''netA'' (), None),
     (NetworkCreateReq background ''netA'' (),
        Some (ErrorString ''Error response from daemon: network with name netA already exists'')),
     (NetworkCreateReq background ''netB'' (), None)], logs = []\<rparr>)"
  by code_simp

text \<open>
  C3. Let the remote answer every create request for a network it has (one whose earlier
  create was answered with success or with "already exists") with an error whose message
  contains "network with name <name> already exists" for that name. If a call of
  \<open>createNetworks\<close> returned no error, then a second call over the same configuration,
  from the world the first call left, returns no error either, and it has issued one
  create request for every declared network, in order: each failure was absorbed and the
  loop went on to the next network.
\<close>

theorem createNetworks_second_call_succeeds:
  assumes dup: "\<And>h ctx n opts. created h n \<Longrightarrow>
             \<exists>e. respond h (NetworkCreateReq ctx n opts) = Some e \<and> isNetworkExistError e n"
    and first: "createNetworks respond c ctx w = (None, w1)"
  shows "\<exists>w2 new. createNetworks respond c ctx' w1 = (None, w2) \<and> calls w2 = calls w1 @ new \<and>
       map fst new =
       map (\<lambda>n. NetworkCreateReq ctx' n (projr (networkCreateOptions c n))) (networks c)"
proof -
  from first have "\<forall>n\<in>set (networks c).
      created (calls w1) n \<and> (\<exists>opts. networkCreateOptions c n = Inr opts)"
    unfolding createNetworks_def by (blast dest: createNetworks_loop_first)
  from createNetworks_loop_second[of respond, OF dup this] show ?thesis
    unfolding createNetworks_def by blast
qed

text \<open>
  The instance: netA exists, the first call absorbs its failure and creates netB; the
  second call succeeds again.
\<close>

theorem createNetworks_second_call_witness:
  "fst (createNetworks naming_remote netAB background netA_exists) = None \<and>
   fst (createNetworks naming_remote netAB background
          (snd (createNetworks naming_remote netAB background netA_exists))) = None"
proof -
  obtain w1 where first: "createNetworks naming_remote netAB background netA_exists = (None, w1)"
    using first_netAB by blast
  from createNetworks_second_call_succeeds
         [of naming_remote netAB background netA_exists w1 background,
          OF naming_remote_dup first]
  show ?thesis using first by auto
qed

subsection \<open>removeNetworks\<close>

text \<open>One turn of the loop, with the branches on the answer merged by \<open>benign\<close>.\<close>

lemma removeNetworks_step:
  "removeNetworks_loop respond ctx (n # ns) w =
     (let a = respond (calls w) (NetworkRemoveReq ctx n);
          w1 = w\<lparr>calls := calls w @ [(NetworkRemoveReq ctx n, a)]\<rparr>
      in if benign a then removeNetworks_loop respond ctx ns w1
         else (a, log_Errorf (''network '' @ n @ '' remove failed'') w1))"
  by (simp add: client_call_def Let_def benign_def split: option.splits)

lemma removeNetworks_loop_None:
  "removeNetworks_loop respond ctx ns w = (None, w') \<Longrightarrow>
   \<exists>new. calls w' = calls w @ new \<and> map fst new = map (NetworkRemoveReq ctx) ns \<and>
      list_all benign (map snd new) \<and> logs w' = logs w"
proof (induction ns arbitrary: w)
  case Nil
  then show ?case by simp
next
  case (Cons n ns)
  define a where "a = respond (calls w) (NetworkRemoveReq ctx n)"
  define w1 where "w1 = w\<lparr>calls := calls w @ [(NetworkRemoveReq ctx n, a)]\<rparr>"
  have b: "benign a"
    using Cons.prems unfolding removeNetworks_step a_def
    by (auto simp: Let_def benign_def split: if_splits)
  then have rest: "removeNetworks_loop respond ctx ns w1 = (None, w')"
    using Cons.prems unfolding removeNetworks_step a_def w1_def by (simp add: Let_def)
  from Cons.IH[OF rest] obtain new where
    c: "calls w' = calls w1 @ new" and m: "map fst new = map (NetworkRemoveReq ctx) ns" and
    ba: "list_all benign (map snd new)" and l: "logs w' = logs w1"
    by blast
  have "calls w' = calls w @ ((NetworkRemoveReq ctx n, a) # new)"
    using c by (simp add: w1_def)
  moreover have "map fst ((NetworkRemoveReq ctx n, a) # new) = map (NetworkRemoveReq ctx) (n # ns)"
    using m by simp
  moreover have "list_all benign (map snd ((NetworkRemoveReq ctx n, a) # new))"
    using ba b by simp
  moreover have "logs w' = logs w" using l by (simp add: w1_def)
  ultimately show ?case by blast
qed

lemma removeNetworks_loop_Some:
  "removeNetworks_loop respond ctx ns w = (Some err, w') \<Longrightarrow>
   \<not> isActiveEndpointError err \<and>
   (\<exists>benigns pre nid post.
      ns = pre @ nid # post \<and>
      calls w' = calls w @ benigns @ [(NetworkRemoveReq ctx nid, Some err)] \<and>
      map fst benigns = map (NetworkRemoveReq ctx) pre \<and>
      list_all benign (map snd benigns) \<and>
      logs w' = logs w @ [(ErrorLevel, ''network '' @ nid @ '' remove failed'')])"
proof (induction ns arbitrary: w)
  case Nil
  then show ?case by simp
next
  case (Cons n ns)
  define a where "a = respond (calls w) (NetworkRemoveReq ctx n)"
  define w1 where "w1 = w\<lparr>calls := calls w @ [(NetworkRemoveReq ctx n, a)]\<rparr>"
  show ?case
  proof (cases "benign a")
    case True
    then have rest: "removeNetworks_loop respond ctx ns w1 = (Some err, w')"
      using Cons.prems unfolding removeNetworks_step a_def w1_def by (simp add: Let_def)
    from Cons.IH[OF rest] obtain benigns pre nid post where
      ne: "\<not> isActiveEndpointError err" and ns: "ns = pre @ nid # post" and
      c: "calls w' = calls w1 @ benigns @ [(NetworkRemoveReq ctx nid, Some err)]" and
      m: "map fst benigns = map (NetworkRemoveReq ctx) pre" and
      b: "list_all benign (map snd benigns)" and
      lg: "logs w' = logs w1 @ [(ErrorLevel, ''network '' @ nid @ '' remove failed'')]"
      by blast
    have 1: "n # ns = (n # pre) @ nid # post" using ns by simp
    have 2: "calls w' = calls w @ ((NetworkRemoveReq ctx n, a) # benigns)
                          @ [(NetworkRemoveReq ctx nid, Some err)]"
      using c by (simp add: w1_def)
    have 3: "map fst ((NetworkRemoveReq ctx n, a) # benigns) =
             map (NetworkRemoveReq ctx) (n # pre)"
      using m by simp
    have 4: "list_all benign (map snd ((NetworkRemoveReq ctx n, a) # benigns))"
      using b True by simp
    have 5: "logs w' = logs w @ [(ErrorLevel, ''network '' @ nid @ '' remove failed'')]"
      using lg by (simp add: w1_def)
    show ?thesis using ne 1 2 3 4 5 by blast
  next
    case False
    then have res: "a = Some err" "w' = log_Errorf (''network '' @ n @ '' remove failed'') w1"
      using Cons.prems unfolding removeNetworks_step a_def w1_def by (auto simp add: Let_def)
    have ne: "\<not> isActiveEndpointError err" using False res by (simp add: benign_def)
    have 2: "calls w' = calls w @ [] @ [(NetworkRemoveReq ctx n, Some err)]"
      using res by (simp add: log_Errorf_def w1_def)
    have 5: "logs w' = logs w @ [(ErrorLevel, ''network '' @ n @ '' remove failed'')]"
      using res by (simp add: log_Errorf_def w1_def)
    show ?thesis
      apply (rule conjI[OF ne])
      apply (rule exI[of _ "[]"], rule exI[of _ "[]"], rule exI[of _ n], rule exI[of _ ns])
      using 2 5 by simp
  qed
qed

lemma run_netABC:
  "removeNetworks busy_remote netABC background fresh_world =
     (Some (ErrorString ''network netB not found''),
      \<lparr>calls = [(NetworkRemoveReq background ''netA'',
                   Some (ErrorString ''network netA has active endpoints'')),
                (NetworkRemoveReq background ''netB'',
                   Some (ErrorString ''network netB not found''))],
       logs = [(ErrorLevel, ''network netB remove failed'')]\<rparr>)"
  by code_simp

text \<open>
  C4, as the code has it. A remove failure whose message contains "has active
  endpoints" counts as success for that network: nothing is logged for it and the loop
  goes on. So a call that returns no error has issued one remove request for every
  network, in order, every answer was success or an active-endpoints failure, and the
  log is unchanged. A call that returns an error returns the first answer that is a
  failure of another kind, unchanged: the networks before it were all attempted, with
  benign answers, the networks after it were not attempted, and the only log entry
  written is the error line "network <nid> remove failed" for the failed network.
\<close>

theorem removeNetworks_outcome:
  assumes run: "removeNetworks respond c ctx w = (r, w')"
  shows "case r of
           None \<Rightarrow>
             (\<exists>new. calls w' = calls w @ new \<and>
                map fst new = map (NetworkRemoveReq ctx) (networks c) \<and>
                list_all benign (map snd new) \<and> logs w' = logs w)
         | Some err \<Rightarrow>
             \<not> isActiveEndpointError err \<and>
             (\<exists>benigns pre nid post.
                networks c = pre @ nid # post \<and>
                calls w' = calls w @ benigns @ [(NetworkRemoveReq ctx nid, Some err)] \<and>
                map fst benigns = map (NetworkRemoveReq ctx) pre \<and>
                list_all benign (map snd benigns) \<and>
                logs w' = logs w @ [(ErrorLevel, ''network '' @ nid @ '' remove failed'')])"
proof (cases r)
  case None
  with run show ?thesis
    unfolding removeNetworks_def by (simp add: removeNetworks_loop_None)
next
  case (Some err)
  with run have "removeNetworks_loop respond ctx (networks c) w = (Some err, w')"
    unfolding removeNetworks_def by simp
  from removeNetworks_loop_Some[OF this] show ?thesis using Some by simp
qed

text \<open>
  The instance: netA is in use, netB fails otherwise, netC is never attempted. The
  returned error is the remote's, and it is not the active-endpoints condition.
\<close>

theorem removeNetworks_outcome_witness:
  "removeNetworks busy_remote netABC background fresh_world =
     (Some (ErrorString ''network netB not found''),
      \<lparr>calls = [(NetworkRemoveReq background ''netA'',
                   Some (ErrorString ''network netA has active endpoints'')),
                (NetworkRemoveReq background ''netB'',
                   Some (ErrorString ''network netB not found''))],
       logs = [(ErrorLevel, ''network netB remove failed'')]\<rparr>)
   \<and> \<not> isActiveEndpointError (ErrorString ''network netB not found'')"
  using removeNetworks_outcome[OF run_netABC] run_netABC by simp

text \<open>
  C4 as the specification words it also has the benign condition logged. The code does
  not: with netA in use, the call returns no error and the log stays empty.
\<close>

theorem removeNetworks_benign_not_logged:
  "fst (removeNetworks busy_remote netA_only background fresh_world) = None
   \<and> calls (snd (removeNetworks busy_remote netA_only background fresh_world)) =
       [(NetworkRemoveReq background ''netA'',
         Some (ErrorString ''network netA has active endpoints''))]
   \<and> isActiveEndpointError (ErrorString ''network netA has active endpoints'')
   \<and> logs (snd (removeNetworks busy_remote netA_only background fresh_world)) = []"
  by code_simp

subsection \<open>pullImage\<close>

lemma fold_upd_lookup:
  "fold (\<lambda>(k, v) m. m(k \<mapsto> v)) kvs m k =
     (case member_of kvs k of Some v \<Rightarrow> Some v | None \<Rightarrow> m k)"
proof (induction kvs arbitrary: m)
  case Nil
  then show ?case by (simp add: member_of_def)
next
  case (Cons kv kvs)
  obtain k' v' where kv: "kv = (k', v')" by (cases kv)
  show ?case using Cons.IH[of "m(k' \<mapsto> v')"]
    by (auto simp add: kv member_of_def map_add_def split: option.splits)
qed

lemma member_of_None: "member_of kvs k = None \<longleftrightarrow> k \<notin> set (map fst kvs)"
  by (simp add: member_of_def map_of_eq_None_iff)

lemma pullImage_loop_decodable:
  "list_all decodable pre \<Longrightarrow> \<exists>m'. pullImage_loop (pre @ rest) m = pullImage_loop rest m'"
proof (induction pre arbitrary: m)
  case Nil
  then show ?case by auto
next
  case (Cons f pre)
  then show ?case by (cases f) auto
qed

lemma pullImage_loop_error_free:
  "list_all error_free fs \<Longrightarrow> m ''error'' = None \<Longrightarrow>
   \<exists>m'. pullImage_loop fs m = Inr m' \<and> m' ''error'' = None"
proof (induction fs arbitrary: m)
  case Nil
  then show ?case by simp
next
  case (Cons f fs)
  show ?case
  proof (cases f)
    case (Object kvs)
    with Cons.prems have "member_of kvs ''error'' = None" by (simp add: member_of_None)
    then have "fold (\<lambda>(k, v) m. m(k \<mapsto> v)) kvs m ''error'' = None"
      using Cons.prems(2) by (simp add: fold_upd_lookup)
    with Cons.IH[of "fold (\<lambda>(k, v) m. m(k \<mapsto> v)) kvs m"] Cons.prems(1) Object
    show ?thesis by simp
  next
    case Null
    with Cons.IH[of Map.empty] Cons.prems(1) show ?thesis by simp
  next
    case (Undecodable e)
    with Cons.prems show ?thesis by simp
  qed
qed

lemma pullImage_loop_objects:
  "\<exists>m'. pullImage_loop (map Object rs) m = Inr m' \<and>
     m' ''error'' = (case last_error rs of Some v \<Rightarrow> Some v | None \<Rightarrow> m ''error'')"
proof (induction rs arbitrary: m)
  case Nil
  then show ?case by simp
next
  case (Cons kvs rs)
  define m1 where "m1 = fold (\<lambda>(k, v) m. m(k \<mapsto> v)) kvs m"
  from Cons.IH[of m1] obtain m' where
    l: "pullImage_loop (map Object rs) m1 = Inr m'" and
    e: "m' ''error'' = (case last_error rs of Some v \<Rightarrow> Some v | None \<Rightarrow> m1 ''error'')"
    by blast
  have m1: "m1 ''error'' = (case member_of kvs ''error'' of Some v \<Rightarrow> Some v | None \<Rightarrow> m ''error'')"
    unfolding m1_def by (rule fold_upd_lookup)
  have "pullImage_loop (map Object (kvs # rs)) m = Inr m'"
    using l by (simp add: m1_def)
  moreover have "m' ''error'' =
      (case last_error (kvs # rs) of Some v \<Rightarrow> Some v | None \<Rightarrow> m ''error'')"
    using e m1 by (simp split: option.splits)
  ultimately show ?case by blast
qed

text \<open>
  The outcomes on which a check of the last record and a check of the map agree. For
  every pull-progress stream: if every frame decodes and the last one is an
  object with a member "error", \<open>pullImage\<close> fails with the error made of that member's
  value; if every frame decodes and none has a member "error", \<open>pullImage\<close> returns no
  error; if a frame fails to decode with an error other than \<open>io.EOF\<close>, after frames
  that decoded, \<open>pullImage\<close> fails with that very error, whatever follows in the stream.
\<close>

theorem pullImage_outcomes:
  "(list_all decodable pre \<and> member_of kvs ''error'' = Some v \<longrightarrow>
      pullImage Sprintf_v (Inr (pre @ [Object kvs])) = Some (ErrorString (Sprintf_v v)))
   \<and> (list_all error_free fs \<longrightarrow> pullImage Sprintf_v (Inr fs) = None)
   \<and> (list_all decodable pre \<and> err \<noteq> EOF \<longrightarrow>
      pullImage Sprintf_v (Inr (pre @ Undecodable err # post)) = Some err)"
proof (intro conjI impI)
  assume a: "list_all decodable pre \<and> member_of kvs ''error'' = Some v"
  then obtain m' where "pullImage_loop (pre @ [Object kvs]) Map.empty = pullImage_loop [Object kvs] m'"
    using pullImage_loop_decodable by blast
  then show "pullImage Sprintf_v (Inr (pre @ [Object kvs])) = Some (ErrorString (Sprintf_v v))"
    using a by (simp add: pullImage_def fold_upd_lookup)
next
  assume "list_all error_free fs"
  then obtain m' where "pullImage_loop fs Map.empty = Inr m'" "m' ''error'' = None"
    using pullImage_loop_error_free[of fs Map.empty] by auto
  then show "pullImage Sprintf_v (Inr fs) = None" by (simp add: pullImage_def)
next
  assume a: "list_all decodable pre \<and> err \<noteq> EOF"
  then obtain m' where "pullImage_loop (pre @ Undecodable err # post) Map.empty = pullImage_loop (Undecodable err # post) m'"
    using pullImage_loop_decodable by blast
  then show "pullImage Sprintf_v (Inr (pre @ Undecodable err # post)) = Some err"
    using a by (simp add: pullImage_def)
qed

text \<open>
  The three cases at work: a stream that ends on the record \<open>{"error": "no such image"}\<close>,
  a stream without any error member, and a stream broken after its first record.
\<close>

theorem pullImage_outcomes_witness:
  "pullImage id (Inr no_such_image) = Some (ErrorString ''no such image'')
   \<and> pullImage id (Inr [Object [(''status'', ''Pull complete'')], Null]) = None
   \<and> pullImage id (Inr [Object [(''status'', ''Pulling'')],
                         Undecodable (ErrorString ''unexpected EOF''),
                         Object [(''status'', ''Pull complete'')]])
       = Some (ErrorString ''unexpected EOF'')"
  using pullImage_outcomes
    [where pre = "[Object [(''status'', ''Pulling repository busybox'')]]"
       and kvs = "[(''error'', ''no such image'')]" and v = "''no such image''"
       and Sprintf_v = id,
     of "[Object [(''status'', ''Pull complete'')], Null]"
        "ErrorString ''unexpected EOF''" "[Object [(''status'', ''Pull complete'')]]"]
    pullImage_outcomes
    [where pre = "[Object [(''status'', ''Pulling'')]]"
       and kvs = "[(''error'', ''no such image'')]" and v = "''no such image''"
       and Sprintf_v = id,
     of "[]" "ErrorString ''unexpected EOF''" "[Object [(''status'', ''Pull complete'')]]"]
  by (simp add: no_such_image_def member_of_def)

text \<open>
  C1. The specification has the final check made on the last successfully decoded
  record, and so has the comment before the check in the source: "if the final stream
  object contained an error, return it". The code checks the map instead, and the map
  still holds the members of the earlier records. On \<open>stale_error\<close> every frame
  decodes, the last record decoded is the status record, which has no member "error",
  and \<open>pullImage\<close> fails all the same, with the value the first record gave.
\<close>

theorem pullImage_checks_stale_member:
  "list_all decodable stale_error
   \<and> last stale_error = Object [(''status'', ''Download complete'')]
   \<and> error_free (last stale_error)
   \<and> pullImage id (Inr stale_error) = Some (ErrorString ''no such image'')"
  by (simp add: stale_error_def pullImage_def)

text \<open>
  C2. The map is the same for all records and \<open>pullImage\<close> never clears it, so the final
  check sees the members of all the objects decoded: on a stream of objects \<open>pullImage\<close>
  fails exactly when some record has a member "error", with the value of the last record
  that has one, wherever that record stands. In particular the stream
  \<open>{"error": "no such image"} {"status": "Download complete"}\<close> makes \<open>pullImage\<close> fail
  although its last record has no error member.
\<close>

theorem pullImage_accumulates:
  "pullImage Sprintf_v (Inr (map Object rs)) = map_option (\<lambda>v. ErrorString (Sprintf_v v)) (last_error rs)
   \<and> member_of (last error_then_status) ''error'' = None
   \<and> pullImage id (Inr (map Object error_then_status)) = Some (ErrorString ''no such image'')"
proof (intro conjI)
  obtain m' where "pullImage_loop (map Object rs) Map.empty = Inr m'"
    "m' ''error'' = (case last_error rs of Some v \<Rightarrow> Some v | None \<Rightarrow> Map.empty ''error'')"
    using pullImage_loop_objects[of rs Map.empty] by blast
  then show "pullImage Sprintf_v (Inr (map Object rs)) = map_option (\<lambda>v. ErrorString (Sprintf_v v)) (last_error rs)"
    by (simp add: pullImage_def split: option.splits)
  show "member_of (last error_then_status) ''error'' = None"
    by (simp add: error_then_status_def member_of_def)
  show "pullImage id (Inr (map Object error_then_status)) = Some (ErrorString ''no such image'')"
    by (simp add: error_then_status_def pullImage_def)
qed

subsection \<open>events\<close>

lemma events_loop_no_close:
  "events_loop rc sel i = (acts, e) \<Longrightarrow> CloseClosed \<notin> set acts \<and> CloseRc \<notin> set acts"
proof (induction rc sel i arbitrary: acts e rule: events_loop.induct)
  case (4 event rest sel i)
  show ?case
  proof (cases "sel i")
    case Received
    obtain acts' e' where r: "events_loop rest sel (Suc i) = (acts', e')" by force
    with "4.IH"[OF Received r] "4.prems" Received show ?thesis by auto
  qed (use "4.prems" in auto)
qed (auto split: if_splits)

lemma events_loop_live:
  "Stalled \<notin> set rc \<Longrightarrow> (\<forall>j < length rc. sel (i + j) \<noteq> NoOne) \<Longrightarrow> snd (events_loop rc sel i) = Returned"
proof (induction rc sel i rule: events_loop.induct)
  case (4 event rest sel i)
  show ?case
  proof (cases "sel i")
    case Received
    have "\<forall>j<length rest. sel (Suc i + j) \<noteq> NoOne"
      using "4.prems"(2) by (metis add_Suc_shift length_Cons Suc_less_eq)
    with "4.IH"[OF Received] "4.prems"(1) Received show ?thesis
      by (auto split: prod.splits)
  next
    case CtxDone
    then show ?thesis by simp
  next
    case NoOne
    with "4.prems"(2) show ?thesis by (metis add.right_neutral length_Cons zero_less_Suc)
  qed
qed auto

text \<open>
  C6. Whatever makes the task return (end of the feed, another decode error, the context
  done at the start or while a message waits for its consumer), its actions end with
  closing the \<open>closed\<close> channel and then closing the stream, and neither happens earlier:
  each happens exactly once, after the last decode. While the task is blocked, in a
  decode or in a delivery, neither has happened. And the task does return in every
  environment where no decode stalls and every delivery ends.
\<close>

theorem events_task_cleanup:
  "(case events_task ctx_done rc sel of
      (acts, Returned) \<Rightarrow>
        (\<exists>body. acts = body @ [CloseClosed, CloseRc] \<and>
           CloseClosed \<notin> set body \<and> CloseRc \<notin> set body)
    | (acts, Blocked) \<Rightarrow> CloseClosed \<notin> set acts \<and> CloseRc \<notin> set acts)
   \<and> (live rc sel \<longrightarrow> snd (events_task ctx_done rc sel) = Returned)"
proof
  obtain acts e where l: "events_loop rc sel 0 = (acts, e)" by force
  from events_loop_no_close[OF l] l
  show "case events_task ctx_done rc sel of
      (acts, Returned) \<Rightarrow>
        (\<exists>body. acts = body @ [CloseClosed, CloseRc] \<and>
           CloseClosed \<notin> set body \<and> CloseRc \<notin> set body)
    | (acts, Blocked) \<Rightarrow> CloseClosed \<notin> set acts \<and> CloseRc \<notin> set acts"
    by (cases e) (auto simp: events_task_def)
  show "live rc sel \<longrightarrow> snd (events_task ctx_done rc sel) = Returned"
  proof
    assume "live rc sel"
    then have "snd (events_loop rc sel 0) = Returned"
      using events_loop_live[of rc sel 0] by (simp add: live_def)
    then show "snd (events_task ctx_done rc sel) = Returned"
      by (auto simp: events_task_def split: prod.splits ending.splits)
  qed
qed

text \<open>
  The instance: the first message is taken, the context is done before the second is.
\<close>

theorem events_task_cleanup_witness:
  "live two_messages first_only \<and>
   events_task False two_messages first_only =
     ([DecodeCall, Send ''create'', DecodeCall, CloseClosed, CloseRc], Returned)"
  using events_task_cleanup[of False two_messages first_only]
  by (simp add: live_def two_messages_def first_only_def events_task_def)

text \<open>
  C7. With the context already done when the task starts, the task decodes nothing and
  sends nothing, whatever the feed holds: all it does is close the \<open>closed\<close> channel and
  the stream, and return.
\<close>

theorem events_task_cancelled_at_start:
  "events_task True rc sel = ([CloseClosed, CloseRc], Returned)"
  by (simp add: events_task_def)

text \<open>
  C10. When opening the feed fails, \<open>events\<close> returns the error with \<open>nil\<close> for both
  channels and starts no task. For every result of \<open>events\<close>, a channel that is not
  \<open>nil\<close> comes with a \<open>nil\<close> error and a started task.
\<close>

theorem events_open_failure:
  "events (Inl err) =
     \<lparr>ret_eventsq = None, ret_closed = None, ret_err = Some err, started = None,
      logged = [(DebugLevel, ''waiting on events'')]\<rparr>
   \<and> ((ret_eventsq (events Events) \<noteq> None \<or> ret_closed (events Events) \<noteq> None) \<longrightarrow>
        ret_err (events Events) = None \<and> started (events Events) \<noteq> None)"
  by (auto simp: events_def split: sum.splits)


theorem events_open_failure_witness:
  "ret_eventsq (events (Inr two_messages)) = Some eventsq
   \<and> ret_closed (events (Inr two_messages)) = Some closed
   \<and> ret_err (events (Inr two_messages)) = None
   \<and> started (events (Inr two_messages)) = Some two_messages"
  using events_open_failure[of "ErrorString ''connection refused''" "Inr two_messages"]
  by (simp add: events_def)

subsection \<open>Rounding to binary64\<close>

lemma round_even_le: "of_int (round_even q) \<le> q + 1 / 2"
proof -
  define r where "r = q - of_int \<lfloor>q\<rfloor>"
  have a: "0 \<le> r" "r < 1" unfolding r_def by linarith+
  have q: "q = of_int \<lfloor>q\<rfloor> + r" unfolding r_def by simp
  consider "r < 1 / 2" | "1 / 2 < r" | "r = 1 / 2" by linarith
  then show ?thesis
  proof cases
    case 1
    then have "round_even q = \<lfloor>q\<rfloor>" by (simp add: round_even_def Let_def r_def)
    then show ?thesis using a q by linarith
  next
    case 2
    then have "round_even q = \<lfloor>q\<rfloor> + 1" by (simp add: round_even_def Let_def r_def)
    then have "of_int (round_even q) = of_int \<lfloor>q\<rfloor> + (1::rat)" by simp
    then show ?thesis using 2 q by linarith
  next
    case 3
    then have "round_even q = \<lfloor>q\<rfloor> \<or> round_even q = \<lfloor>q\<rfloor> + 1"
      by (simp add: round_even_def Let_def r_def)
    then have "of_int (round_even q) \<le> of_int \<lfloor>q\<rfloor> + (1::rat)" by auto
    then show ?thesis using 3 q by linarith
  qed
qed

lemma round_even_ge_int: "of_int n \<le> q \<Longrightarrow> n \<le> round_even q"
proof -
  assume "of_int n \<le> q"
  then have "n \<le> \<lfloor>q\<rfloor>" by (simp add: le_floor_iff)
  then show ?thesis by (auto simp: round_even_def Let_def)
qed

lemma round_even_le_int: "q \<le> of_int n \<Longrightarrow> round_even q \<le> n"
proof -
  assume a: "q \<le> of_int n"
  show ?thesis
  proof (cases "q = of_int n")
    case True
    then show ?thesis by (simp add: round_even_def Let_def)
  next
    case False
    with a have "q < of_int n" by simp
    then have "\<lfloor>q\<rfloor> < n" by (simp add: floor_less_iff)
    then show ?thesis by (auto simp: round_even_def Let_def)
  qed
qed

lemma ilog2_nonneg: "0 \<le> ilog2 n"
  by (induction n rule: ilog2.induct) (subst ilog2.simps, simp)

lemma ilog2_less: "n < 2 ^ Suc k \<Longrightarrow> ilog2 n \<le> int k"
proof (induction k arbitrary: n)
  case 0
  then show ?case by (subst ilog2.simps) simp
next
  case (Suc k)
  show ?case
  proof (cases "n < 2")
    case True
    then show ?thesis by (subst ilog2.simps) simp
  next
    case False
    from Suc.prems have "n div 2 < 2 ^ Suc k" by simp
    from Suc.IH[OF this] False show ?thesis by (subst ilog2.simps) simp
  qed
qed

lemma expo_neg: "x < 1 \<Longrightarrow> expo x \<le> - 1"
  using ilog2_nonneg[of "\<lceil>1 / x\<rceil> - 1"] by (simp add: expo_def)

lemma expo_less: "x < 2 ^ Suc k \<Longrightarrow> expo x \<le> int k"
proof (cases "1 \<le> x")
  case True
  assume "x < 2 ^ Suc k"
  then have "\<lfloor>x\<rfloor> < 2 ^ Suc k"
    by (metis floor_less_iff of_int_numeral of_int_power)
  from ilog2_less[OF this] True show ?thesis by (simp add: expo_def)
next
  case False
  then have "expo x \<le> - 1" using expo_neg by simp
  then show ?thesis by simp
qed

text \<open>The unit in the last place as an inverse power of two.\<close>

lemma ulp_inverse:
  assumes "max (expo \<bar>x\<bar>) (- 1022) \<le> E" "E \<le> 52"
  shows "\<exists>m. ulp x = 1 / 2 ^ m \<and> int m \<ge> 52 - E"
proof -
  define e where "e = max (expo \<bar>x\<bar>) (- 1022)"
  have "e - 52 \<le> 0" using assms by (simp add: e_def)
  then have "ulp x = 1 / 2 ^ nat (52 - e)"
    unfolding ulp_def e_def[symmetric]
    by (simp add: power_int_def field_simps)
  moreover have "int (nat (52 - e)) \<ge> 52 - E" using assms by (simp add: e_def)
  ultimately show ?thesis by blast
qed

lemma float64_ge_int:
  assumes "0 \<le> n" "of_int n \<le> x" "x < 2 ^ 53"
  shows "of_int n \<le> float64 x"
proof (cases "x = 0")
  case True
  with assms show ?thesis by (simp add: float64_def)
next
  case False
  with assms have pos: "0 < x" by simp
  have "max (expo \<bar>x\<bar>) (- 1022) \<le> 52"
    using expo_less[of "\<bar>x\<bar>" 52] assms pos by simp
  from ulp_inverse[OF this] obtain m where u: "ulp x = 1 / 2 ^ m" by auto
  have "of_int (n * 2 ^ m) \<le> \<bar>x\<bar> / ulp x"
    using assms pos by (simp add: u)
  then have "n * 2 ^ m \<le> round_even (\<bar>x\<bar> / ulp x)" by (rule round_even_ge_int)
  then have "(of_int (n * 2 ^ m) :: rat) \<le> of_int (round_even (\<bar>x\<bar> / ulp x))"
    by (simp only: of_int_le_iff)
  then have "(of_int n :: rat) \<le> of_int (round_even (\<bar>x\<bar> / ulp x)) / 2 ^ m"
    by (simp add: field_simps)
  then show ?thesis using pos by (simp add: float64_def u)
qed

lemma float64_le_int:
  assumes "0 \<le> x" "x \<le> of_int n" "x < 2 ^ 53"
  shows "float64 x \<le> of_int n"
proof (cases "x = 0")
  case True
  with assms show ?thesis by (simp add: float64_def)
next
  case False
  with assms have pos: "0 < x" by simp
  have "max (expo \<bar>x\<bar>) (- 1022) \<le> 52"
    using expo_less[of "\<bar>x\<bar>" 52] assms pos by simp
  from ulp_inverse[OF this] obtain m where u: "ulp x = 1 / 2 ^ m" by auto
  have "\<bar>x\<bar> / ulp x \<le> of_int (n * 2 ^ m)"
    using assms pos by (simp add: u)
  then have "round_even (\<bar>x\<bar> / ulp x) \<le> n * 2 ^ m" by (rule round_even_le_int)
  then have "(of_int (round_even (\<bar>x\<bar> / ulp x)) :: rat) \<le> of_int (n * 2 ^ m)"
    by (simp only: of_int_le_iff)
  then have "of_int (round_even (\<bar>x\<bar> / ulp x)) / 2 ^ m \<le> (of_int n :: rat)"
    by (simp add: field_simps)
  then show ?thesis using pos by (simp add: float64_def u)
qed

lemma float64_of_int: "0 \<le> n \<Longrightarrow> n < 2 ^ 53 \<Longrightarrow> float64 (of_int n) = of_int n"
proof -
  assume a: "0 \<le> n" "n < 2 ^ 53"
  then have b: "(of_int n :: rat) < 2 ^ 53"
    by (metis of_int_less_iff of_int_numeral of_int_power)
  from a have b0: "(0::rat) \<le> of_int n" by simp
  from float64_ge_int[of n "of_int n"] float64_le_int[of "of_int n" n] a b b0
  show ?thesis by simp
qed

lemma float64_le_half_ulp:
  assumes "0 \<le> x" "max (expo \<bar>x\<bar>) (- 1022) \<le> E" "E \<le> 52" "m = nat (53 - E)"
  shows "float64 x \<le> x + 1 / 2 ^ m"
proof (cases "x = 0")
  case True
  then show ?thesis by (simp add: float64_def)
next
  case False
  with assms have pos: "0 < x" by simp
  from ulp_inverse[OF assms(2,3)] obtain k where u: "ulp x = 1 / 2 ^ k" and k: "int k \<ge> 52 - E"
    by auto
  have "Suc k \<ge> m" using k assms by simp
  then have "(2::rat) ^ m \<le> 2 ^ Suc k" by (rule power_increasing) simp_all
  then have h: "1 / (2::rat) ^ Suc k \<le> 1 / 2 ^ m" by (simp add: frac_le)
  have "of_int (round_even (\<bar>x\<bar> / ulp x)) \<le> \<bar>x\<bar> / ulp x + 1 / 2" by (rule round_even_le)
  then have "of_int (round_even (\<bar>x\<bar> / ulp x)) * (1 / 2 ^ k) \<le> (x * 2 ^ k + 1 / 2) * (1 / 2 ^ k)"
    using pos by (intro mult_right_mono) (simp_all add: u)
  also have "\<dots> = x + 1 / 2 ^ Suc k" by (simp add: field_simps)
  finally have "float64 x \<le> x + 1 / 2 ^ Suc k" using pos by (simp add: float64_def u)
  with h show ?thesis by linarith
qed

subsection \<open>Duration.Seconds\<close>

lemma sdiv_smod_Second:
  "0 \<le> d \<Longrightarrow> d sdiv Second = d div 1000000000 \<and> d smod Second = d mod 1000000000"
  by (simp add: signed_divide_int_def signed_modulo_int_def Second_def sgn_if)

lemma float64_1e_9: "float64 (1 / 1000000000) = 4835703278458517 / 2 ^ 82"
  by code_simp

lemma float64_1e9: "float64 1000000000 = 1000000000"
  using float64_of_int[of 1000000000] by simp

lemma float64_sum_floor:
  assumes "0 \<le> sec" "sec < 2 ^ 24" "0 \<le> f" "f + 1 / 2 ^ 30 < 1"
  shows "\<lfloor>float64 (of_int sec + f)\<rfloor> = sec"
proof -
  define s where "s = of_int sec + f"
  have s0: "0 \<le> s" using assms by (simp add: s_def)
  have "sec + 1 \<le> 2 ^ 24" using assms by simp
  then have "(of_int (sec + 1) :: rat) \<le> of_int (2 ^ 24)" by (simp only: of_int_le_iff)
  then have s1: "s < 2 ^ 24" using assms by (simp add: s_def)
  then have s2: "s < 2 ^ 53" by simp
  have "expo \<bar>s\<bar> \<le> 23" using expo_less[of "\<bar>s\<bar>" 23] s0 s1 by simp
  then have "max (expo \<bar>s\<bar>) (- 1022) \<le> 23" by simp
  from float64_le_half_ulp[OF s0 this, of 30] have "float64 s \<le> s + 1 / 2 ^ 30" by simp
  then have up: "float64 s < of_int sec + 1" using assms by (simp add: s_def)
  have lo: "of_int sec \<le> float64 s"
    using float64_ge_int[of sec s] assms s2 by (simp add: s_def)
  show ?thesis unfolding s_def[symmetric] using lo up by (simp add: floor_unique)
qed

lemma float64_sum_range:
  assumes "0 \<le> sec" "sec < 2 ^ 52" "0 \<le> f" "f < 1"
  shows "sec \<le> \<lfloor>float64 (of_int sec + f)\<rfloor> \<and> \<lfloor>float64 (of_int sec + f)\<rfloor> \<le> sec + 1"
proof -
  define s where "s = of_int sec + f"
  have s0: "0 \<le> s" using assms by (simp add: s_def)
  have "sec + 1 \<le> 2 ^ 52" using assms by simp
  then have "(of_int (sec + 1) :: rat) \<le> of_int (2 ^ 52)" by (simp only: of_int_le_iff)
  then have s1: "s < 2 ^ 52" using assms by (simp add: s_def)
  then have s2: "s < 2 ^ 53" by simp
  have lo: "of_int sec \<le> float64 s"
    using float64_ge_int[of sec s] assms s2 by (simp add: s_def)
  have up: "float64 s \<le> of_int (sec + 1)"
    using float64_le_int[of s "sec + 1"] assms s0 s2 by (simp add: s_def)
  from lo have "sec \<le> \<lfloor>float64 s\<rfloor>" by (simp add: le_floor_iff)
  moreover from up have "\<lfloor>float64 s\<rfloor> \<le> sec + 1" by (metis floor_mono floor_of_int)
  ultimately show ?thesis by (simp add: s_def)
qed

text \<open>
  Two values of the rounding as the hardware gives them: the binary64 numbers nearest
  to one tenth and to \<open>1e-9\<close>, by their significands.
\<close>

lemma float64_one_tenth: "float64 (1 / 10) = 7205759403792794 / 2 ^ 56"
  by code_simp

lemma float64_below_one:
  assumes "0 \<le> p" "p < 1"
  shows "0 \<le> float64 p \<and> float64 p \<le> p + 1 / 2 ^ 54"
proof -
  have "expo \<bar>p\<bar> \<le> - 1" using expo_neg[of "\<bar>p\<bar>"] assms by simp
  then have "max (expo \<bar>p\<bar>) (- 1022) \<le> - 1" by simp
  from float64_le_half_ulp[OF assms(1) this, of 54] have "float64 p \<le> p + 1 / 2 ^ 54" by simp
  moreover have "0 \<le> float64 p" using float64_ge_int[of 0 p] assms by simp
  ultimately show ?thesis by simp
qed

lemma frac_mul:
  assumes "0 \<le> nsec" "nsec < 1000000000"
  shows "0 \<le> float64 (float64 (of_int nsec) * float64 (1 / 1000000000)) \<and>
         float64 (float64 (of_int nsec) * float64 (1 / 1000000000)) + 1 / 2 ^ 30 < 1"
proof -
  have n: "float64 (of_int nsec) = of_int nsec" using assms by (intro float64_of_int) simp_all
  define p :: rat where "p = of_int nsec * (4835703278458517 / 2 ^ 82)"
  have "nsec \<le> 999999999" using assms by simp
  then have "(of_int nsec :: rat) \<le> of_int 999999999" by (simp only: of_int_le_iff)
  then have pu: "p \<le> 999999999 * (4835703278458517 / 2 ^ 82)"
    unfolding p_def by (intro mult_right_mono) simp_all
  have p0: "0 \<le> p" using assms by (simp add: p_def)
  have p1: "p < 1" using pu by simp
  from float64_below_one[OF p0 p1] pu show ?thesis
    unfolding n float64_1e_9 p_def[symmetric] by simp
qed

lemma frac_div:
  assumes "0 \<le> nsec" "nsec < 1000000000"
  shows "0 \<le> float64 (float64 (of_int nsec) / float64 1000000000) \<and>
         float64 (float64 (of_int nsec) / float64 1000000000) + 1 / 2 ^ 30 < 1"
proof -
  have n: "float64 (of_int nsec) = of_int nsec" using assms by (intro float64_of_int) simp_all
  define p :: rat where "p = of_int nsec / 1000000000"
  have "nsec \<le> 999999999" using assms by simp
  then have "(of_int nsec :: rat) \<le> of_int 999999999" by (simp only: of_int_le_iff)
  then have pu: "p \<le> 999999999 / 1000000000"
    unfolding p_def by (simp add: divide_right_mono)
  have p0: "0 \<le> p" using assms by (simp add: p_def)
  have p1: "p < 1" using pu by simp
  from float64_below_one[OF p0 p1] pu show ?thesis
    unfolding n float64_1e9 p_def[symmetric] by simp
qed

lemma Seconds_floor:
  assumes S: "Seconds = Seconds_mul \<or> Seconds = Seconds_div"
    and d: "0 < d" "d < 16777216 * 1000000000"
  shows "int_of_float64 (Seconds d) = d div 1000000000"
proof -
  define sec where "sec = d div 1000000000"
  define nsec where "nsec = d mod 1000000000"
  have sd: "d sdiv Second = sec" "d smod Second = nsec"
    using sdiv_smod_Second[of d] d by (simp_all add: sec_def nsec_def)
  have sec: "0 \<le> sec" "sec < 2 ^ 24" using d by (simp_all add: sec_def)
  have nsec: "0 \<le> nsec" "nsec < 1000000000" by (simp_all add: nsec_def)
  have fs: "float64 (of_int sec) = of_int sec" using sec by (intro float64_of_int) simp_all
  have "\<lfloor>Seconds d\<rfloor> = sec"
    using S float64_sum_floor[OF sec] frac_mul[OF nsec] frac_div[OF nsec]
    by (auto simp: Seconds_mul_def Seconds_div_def sd Let_def fs)
  moreover have "0 \<le> Seconds d" using calculation sec
    by (metis zero_le_floor)
  ultimately show ?thesis by (simp add: int_of_float64_def sec_def)
qed

lemma Seconds_range:
  assumes S: "Seconds = Seconds_mul \<or> Seconds = Seconds_div"
    and d: "0 < d" "d \<le> maxDuration"
  shows "d div 1000000000 \<le> int_of_float64 (Seconds d) \<and>
         int_of_float64 (Seconds d) \<le> d div 1000000000 + 1"
proof -
  define sec where "sec = d div 1000000000"
  define nsec where "nsec = d mod 1000000000"
  have sd: "d sdiv Second = sec" "d smod Second = nsec"
    using sdiv_smod_Second[of d] d by (simp_all add: sec_def nsec_def)
  have sec: "0 \<le> sec" "sec < 2 ^ 52" using d by (simp_all add: sec_def maxDuration_def)
  have nsec: "0 \<le> nsec" "nsec < 1000000000" by (simp_all add: nsec_def)
  have fs: "float64 (of_int sec) = of_int sec" using sec by (intro float64_of_int) simp_all
  have fm: "0 \<le> float64 (float64 (of_int nsec) * float64 (1 / 1000000000))"
       "float64 (float64 (of_int nsec) * float64 (1 / 1000000000)) < 1"
    using frac_mul[OF nsec] by simp_all
  have fd: "0 \<le> float64 (float64 (of_int nsec) / float64 1000000000)"
       "float64 (float64 (of_int nsec) / float64 1000000000) < 1"
    using frac_div[OF nsec] by simp_all
  have r: "sec \<le> \<lfloor>Seconds d\<rfloor> \<and> \<lfloor>Seconds d\<rfloor> \<le> sec + 1"
    using S float64_sum_range[OF sec fm] float64_sum_range[OF sec fd]
    by (auto simp: Seconds_mul_def Seconds_div_def sd Let_def fs)
  moreover have "0 \<le> Seconds d" using r sec
    by (metis zero_le_floor order_trans)
  ultimately show ?thesis by (simp add: int_of_float64_def sec_def)
qed

subsection \<open>resolveTimeout\<close>

lemma Sub_plain: "minDuration \<le> t - u \<Longrightarrow> t - u \<le> maxDuration \<Longrightarrow> Sub t u = t - u"
  by (simp add: Sub_def)

lemma Sub_pos: "0 < Sub t u \<longleftrightarrow> u < t"
  by (auto simp: Sub_def minDuration_def maxDuration_def)

lemma Sub_le_max: "Sub t u \<le> maxDuration"
  by (auto simp: Sub_def minDuration_def maxDuration_def)

text \<open>
  C5, as the code has it. With either formula of \<open>Seconds\<close>: a context without deadline
  gives the timeout 10 and no error. A deadline \<open>D\<close> strictly in the future and less
  than \<open>2 ^ 24\<close> seconds (about 194 days) away gives \<open>floor (D - now)\<close> in seconds and no
  error. Any deadline strictly in the future gives a timeout and no error, and the
  timeout is the remaining duration (capped at the greatest \<open>Duration\<close>) in whole
  seconds or one second more. A deadline that is not in the future never gives a timeout
  without error: the call waits for the context to be done and then returns 0 with the
  context's error, and it never returns if the context is never done.
\<close>

theorem resolveTimeout_cases:
  assumes S: "Seconds = Seconds_mul \<or> Seconds = Seconds_div"
  shows "(Deadline ctx = None \<longrightarrow> resolveTimeout Seconds ctx now = Some (10, None))
    \<and> (\<forall>D. Deadline ctx = Some D \<and> now < D \<and> D - now < 16777216 * 1000000000 \<longrightarrow>
          resolveTimeout Seconds ctx now = Some ((D - now) div 1000000000, None))
    \<and> (\<forall>D. Deadline ctx = Some D \<and> now < D \<longrightarrow>
          (\<exists>t. resolveTimeout Seconds ctx now = Some (t, None) \<and>
               Sub D now div 1000000000 \<le> t \<and> t \<le> Sub D now div 1000000000 + 1))
    \<and> (\<forall>D. Deadline ctx = Some D \<and> D \<le> now \<longrightarrow>
          resolveTimeout Seconds ctx now =
            (case Done ctx of None \<Rightarrow> None | Some err \<Rightarrow> Some (0, Some err)))"
proof (intro conjI allI impI)
  assume "Deadline ctx = None"
  then show "resolveTimeout Seconds ctx now = Some (10, None)"
    by (simp add: resolveTimeout_def)
next
  fix D assume a: "Deadline ctx = Some D \<and> now < D \<and> D - now < 16777216 * 1000000000"
  then have l: "Sub D now = D - now"
    by (intro Sub_plain) (simp_all add: minDuration_def maxDuration_def)
  have "int_of_float64 (Seconds (D - now)) = (D - now) div 1000000000"
    using a by (intro Seconds_floor[OF S]) simp_all
  then show "resolveTimeout Seconds ctx now = Some ((D - now) div 1000000000, None)"
    using a l by (simp add: resolveTimeout_def)
next
  fix D assume a: "Deadline ctx = Some D \<and> now < D"
  then have p: "0 < Sub D now" by (simp add: Sub_pos)
  from Seconds_range[OF S p Sub_le_max] a p
  show "\<exists>t. resolveTimeout Seconds ctx now = Some (t, None) \<and>
               Sub D now div 1000000000 \<le> t \<and> t \<le> Sub D now div 1000000000 + 1"
    by (simp add: resolveTimeout_def)
next
  fix D assume a: "Deadline ctx = Some D \<and> D \<le> now"
  then have "\<not> 0 < Sub D now" by (simp add: Sub_pos)
  then show "resolveTimeout Seconds ctx now =
            (case Done ctx of None \<Rightarrow> None | Some err \<Rightarrow> Some (0, Some err))"
    using a by (simp add: resolveTimeout_def)
qed

lemma Seconds_mul_half_year: "Seconds_mul 16777216999999999 = 16777217"
  by code_simp

lemma Seconds_div_half_year: "Seconds_div 16777216999999999 = 16777217"
  by code_simp

text \<open>
  C5 as the specification words it promises \<open>floor (D - now)\<close> seconds for every
  deadline in the future. With the deadline 16777216.999999999 seconds away, the sum
  of 16777216 and the fraction rounds to the binary64 number 16777217, and that is the
  timeout returned, under both formulas.
\<close>

theorem resolveTimeout_rounds_up:
  "resolveTimeout Seconds_mul half_year 0 = Some (16777217, None)
   \<and> resolveTimeout Seconds_div half_year 0 = Some (16777217, None)
   \<and> (16777216999999999 - 0) div 1000000000 = (16777216 :: int)"
  by (simp add: resolveTimeout_def half_year_def Sub_def minDuration_def maxDuration_def
        Seconds_mul_half_year Seconds_div_half_year int_of_float64_def)

text \<open>
  Instances: no deadline; a deadline seven and a half seconds away; the same deadline
  reached.
\<close>

theorem resolveTimeout_cases_witness:
  "resolveTimeout Seconds_mul \<lparr>Deadline = None, Done = None\<rparr> 5 = Some (10, None)
   \<and> resolveTimeout Seconds_mul \<lparr>Deadline = Some 7500000000, Done = Some DeadlineExceeded\<rparr> 0
       = Some (7, None)
   \<and> resolveTimeout Seconds_mul \<lparr>Deadline = Some 7500000000, Done = Some DeadlineExceeded\<rparr> 7500000000
       = Some (0, Some DeadlineExceeded)"
  using resolveTimeout_cases[of Seconds_mul "\<lparr>Deadline = None, Done = None\<rparr>" 5]
        resolveTimeout_cases[of Seconds_mul "\<lparr>Deadline = Some 7500000000, Done = Some DeadlineExceeded\<rparr>" 0]
        resolveTimeout_cases[of Seconds_mul "\<lparr>Deadline = Some 7500000000, Done = Some DeadlineExceeded\<rparr>" 7500000000]
  by simp

text \<open>
  C9. A deadline strictly in the future and less than one second away gives the timeout
  0 with no error, although the deadline has not passed.
\<close>

theorem resolveTimeout_under_a_second:
  assumes "Seconds = Seconds_mul \<or> Seconds = Seconds_div"
    and "Deadline ctx = Some D" and "now < D" and "D - now < 1000000000"
  shows "resolveTimeout Seconds ctx now = Some (0, None)"
proof -
  have l: "Sub D now = D - now"
    using assms by (intro Sub_plain) (simp_all add: minDuration_def maxDuration_def)
  have "int_of_float64 (Seconds (D - now)) = (D - now) div 1000000000"
    using assms by (intro Seconds_floor) simp_all
  then show ?thesis using assms l by (simp add: resolveTimeout_def)
qed

text \<open>Instance: 400 nanoseconds are left.\<close>

theorem resolveTimeout_under_a_second_witness:
  "resolveTimeout Seconds_div \<lparr>Deadline = Some 1000000400, Done = None\<rparr> 1000000000 = Some (0, None)"
  using resolveTimeout_under_a_second[of Seconds_div "\<lparr>Deadline = Some 1000000400, Done = None\<rparr>" 1000000400 1000000000]
  by simp

end
